theory Spec2Isabelle
  imports Complex_Main
begin

section \<open>Conventions\<close>

text \<open>
  The notebook \<^verbatim>\<open>redshift_with_crosscorr.ipynb\<close> computes with IEEE doubles held in
  numpy arrays; the embedding computes with exact reals held in lists, so rounding,
  infinities and overflow are outside it. A not-a-number result that numpy returns
  without raising is a value of its own (\<open>NaN\<close> below). Physical units are dropped.

  The second half of the notebook (the lower-resolution run) repeats the statements of
  the first half cell by cell, so one set of definitions embeds both runs.
\<close>

text \<open>
  The exceptions of the embedding. \<open>TypeError\<close>, \<open>ValueError\<close> and \<open>IndexError\<close> are the
  Python exceptions the statements of the notebook can raise. \<open>PeakAtBoundaryError\<close> and
  \<open>DegenerateFitError\<close> are the two kinds the specification names for peak refinement;
  no statement of the notebook raises them.
\<close>

datatype error = TypeError | ValueError | IndexError | PeakAtBoundaryError | DegenerateFitError

section \<open>Spectra (cells 7 to 9)\<close>

record spectrum =
  wavelength :: "real list"
  flux :: "real list"
  uncertainty :: "real list option"

text \<open>
  \<^verbatim>\<open>Spectrum1D(spectral_axis=..., flux=..., uncertainty=...)\<close>: the constructor of
  specutils refuses a spectral axis or an uncertainty whose length differs from the
  length of the flux, with a ValueError.
\<close>

definition Spectrum1D :: "real list \<Rightarrow> real list \<Rightarrow> real list option \<Rightarrow> error + spectrum" where
  "Spectrum1D spectral_axis fl unc =
     (if length spectral_axis \<noteq> length fl then Inl ValueError
      else if (case unc of None \<Rightarrow> False | Some u \<Rightarrow> length u \<noteq> length fl) then Inl ValueError
      else Inr \<lparr>wavelength = spectral_axis, flux = fl, uncertainty = unc\<rparr>)"

text \<open>
  Cells 7 and 8, the observation. The two FITS arrays and the two header values are the
  inputs.
  \<^verbatim>\<open>unc = 1./ np.sqrt(wht)
wave = np.arange(flux.shape[0])*hdu1d[0].header['CD1_1'] + hdu1d[0].header['CRVAL1']
dataspec = QTable([wave*u.angstrom, flux*spec_unit, wht, unc*spec_unit], names=(...))
dataspec_sub = dataspec[dataspec['weight']>0.]
obs = Spectrum1D(spectral_axis=dataspec_sub['wavelength'], flux=dataspec_sub['flux'],
                 uncertainty=StdDevUncertainty(dataspec_sub['uncertainty']))\<close>
  A table of columns of different lengths is refused with a ValueError. A row is the
  tuple (wavelength, flux, weight, uncertainty). For a weight that is not positive numpy
  gives an infinite or not-a-number uncertainty; those rows are dropped by the mask, so
  the value HOL gives there is never kept.
\<close>

definition make_obs :: "real \<Rightarrow> real \<Rightarrow> real list \<Rightarrow> real list \<Rightarrow> error + spectrum" where
  "make_obs cd1_1 crval1 fluxd wht =
     (let unc = map (\<lambda>w. 1 / sqrt w) wht;
          wave = map (\<lambda>i. real i * cd1_1 + crval1) [0..<length fluxd]
      in if length wht \<noteq> length fluxd then Inl ValueError
         else
           let dataspec = zip wave (zip fluxd (zip wht unc));
               dataspec_sub = filter (\<lambda>(wl, f, w, u). w > 0) dataspec
           in Spectrum1D (map (\<lambda>(wl, f, w, u). wl) dataspec_sub)
                (map (\<lambda>(wl, f, w, u). f) dataspec_sub)
                (Some (map (\<lambda>(wl, f, w, u). u) dataspec_sub)))"


section \<open>Continuum subtraction (cell 13)\<close>


section \<open>Band-limiting filter (cells 17 and 41)\<close>

text \<open>
  \<^verbatim>\<open>N = int(np.ceil((4 / b)))
if not N % 2:  # N must be odd
    N += 1\<close>
  The cell takes \<^verbatim>\<open>b\<close> from \<open>(0, 0.5)\<close>, as its comment says. At \<^verbatim>\<open>b = 0\<close> Python
  raises a ZeroDivisionError where HOL divides to zero; the theorems below are about
  \<open>0 < b\<close> only.
\<close>

definition kernel_length :: "real \<Rightarrow> int" where
  "kernel_length b = (let N = \<lceil>4 / b\<rceil> in if N mod 2 = 0 then N + 1 else N)"

text \<open>The operating point both runs assign: \<^verbatim>\<open>fc = 0.05\<close> (after \<^verbatim>\<open>fc = 0.25\<close>) and \<^verbatim>\<open>b = 0.49\<close>.\<close>

definition fc_notebook :: real where
  "fc_notebook = 5 / 100"

definition b_notebook :: real where
  "b_notebook = 49 / 100"

text \<open>
  \<^verbatim>\<open>np.sinc\<close>, as numpy writes it:
  \<^verbatim>\<open>x = np.pi * where(x == 0, 1.0e-20, x); return sin(x)/x\<close>.
\<close>

definition np_sinc :: "real \<Rightarrow> real" where
  "np_sinc x = (let y = pi * (if x = 0 then 1 / 10 ^ 20 else x) in sin y / y)"

text \<open>
  \<^verbatim>\<open>w = 0.42 - 0.5 * np.cos(2 * np.pi * n / (N - 1)) + 0.08 * np.cos(4 * np.pi * n / (N - 1))\<close>
\<close>

definition blackman :: "int \<Rightarrow> real \<Rightarrow> real" where
  "blackman N n =
     42 / 100 - 5 / 10 * cos (2 * pi * n / (real_of_int N - 1))
       + 8 / 100 * cos (4 * pi * n / (real_of_int N - 1))"

text \<open>
  \<^verbatim>\<open>n = np.arange(N)
filt = np.sinc(2 * fc * (n - (N - 1) / 2))
filt *= w
filt /= np.sum(filt)\<close>
  \<open>raw_taps\<close> is \<^verbatim>\<open>filt\<close> before the last statement, \<open>design_lowpass\<close> after it. Where the
  sum is zero numpy divides by zero (getting infinities or not-a-numbers, with a
  warning) and HOL returns zeros.
\<close>

definition raw_taps :: "real \<Rightarrow> real \<Rightarrow> real list" where
  "raw_taps fc b =
     (let N = kernel_length b;
          n = map real [0..<nat N];
          filt = map (\<lambda>i. np_sinc (2 * fc * (i - (real_of_int N - 1) / 2))) n;
          w = map (blackman N) n
      in map2 (\<lambda>f wi. f * wi) filt w)"

definition design_lowpass :: "real \<Rightarrow> real \<Rightarrow> real list" where
  "design_lowpass fc b = (let filt = raw_taps fc b in map (\<lambda>t. t / sum_list filt) filt)"

text \<open>
  \<^verbatim>\<open>np.convolve(a, v, mode='same')\<close>. numpy swaps the operands when \<^verbatim>\<open>v\<close> is the longer
  one, refuses an empty operand with a ValueError, and returns as many samples as the
  longer operand has, cut from the full linear convolution from offset \<open>(n - 1) div 2\<close>
  on, with \<open>n\<close> the length of the shorter operand.
\<close>

definition conv_full :: "real list \<Rightarrow> real list \<Rightarrow> real list" where
  "conv_full a v =
     map (\<lambda>k. \<Sum>j\<leftarrow>[0..<length a]. if j \<le> k \<and> k - j < length v then a ! j * v ! (k - j) else 0)
       [0..<length a + length v - 1]"

definition np_convolve_same :: "real list \<Rightarrow> real list \<Rightarrow> error + real list" where
  "np_convolve_same a0 v0 =
     (let (a, v) = (if length v0 > length a0 then (v0, a0) else (a0, v0))
      in if length a = 0 then Inl ValueError
         else if length v = 0 then Inl ValueError
         else Inr (take (length a) (drop ((length v - 1) div 2) (conv_full a v))))"

text \<open>
  \<^verbatim>\<open>sflux = np.convolve(p_obs.flux, filt, mode='same')
p_obs = Spectrum1D(spectral_axis=p_obs.wavelength, flux=sflux, uncertainty=p_obs.uncertainty)\<close>
\<close>

definition apply_filter :: "spectrum \<Rightarrow> real list \<Rightarrow> error + spectrum" where
  "apply_filter p_obs filt =
     (case np_convolve_same (flux p_obs) filt of
        Inl e \<Rightarrow> Inl e
      | Inr sflux \<Rightarrow> Spectrum1D (wavelength p_obs) sflux (uncertainty p_obs))"

section \<open>Peak of the correlation (cells 22 and 24)\<close>

text \<open>
  \<^verbatim>\<open>index_peak = np.where(corr == np.amax(corr))[0][0]\<close>. \<^verbatim>\<open>np.amax\<close> refuses an empty
  array with a ValueError; indexing an empty index array raises an IndexError.
\<close>

fun np_amax :: "real list \<Rightarrow> error + real" where
  "np_amax [] = Inl ValueError"
| "np_amax (x # xs) = Inr (fold max xs x)"

definition np_where_eq :: "real list \<Rightarrow> real \<Rightarrow> nat list" where
  "np_where_eq xs m = filter (\<lambda>i. xs ! i = m) [0..<length xs]"

definition coarse_peak :: "real list \<Rightarrow> error + nat" where
  "coarse_peak corr =
     (case np_amax corr of
        Inl e \<Rightarrow> Inl e
      | Inr m \<Rightarrow> (case np_where_eq corr m of [] \<Rightarrow> Inl IndexError | i # _ \<Rightarrow> Inr i))"

text \<open>
  A Python slice \<^verbatim>\<open>xs[start:stop]\<close> of step one: a negative bound counts from the end,
  and every bound is clamped to the range of the sequence.
\<close>

definition py_slice :: "'a list \<Rightarrow> int \<Rightarrow> int \<Rightarrow> 'a list" where
  "py_slice xs start stop =
     (let L = int (length xs);
          s = (if start < 0 then max (start + L) 0 else min start L);
          e = (if stop < 0 then max (stop + L) 0 else min stop L)
      in take (nat (e - s)) (drop (nat s) xs))"

text \<open>\<^verbatim>\<open>lag[index_peak-n:index_peak+n+1]\<close>\<close>

definition peak_window :: "'a list \<Rightarrow> nat \<Rightarrow> nat \<Rightarrow> 'a list" where
  "peak_window xs index_peak n = py_slice xs (int index_peak - int n) (int index_peak + int n + 1)"

text \<open>
  \<^verbatim>\<open>np.polyfit(x, y, deg=2)\<close>: the least-squares quadratic, coefficients from the
  highest power down. numpy refuses an empty \<^verbatim>\<open>x\<close>, and then an \<^verbatim>\<open>x\<close> and \<^verbatim>\<open>y\<close> of
  different lengths, with a TypeError. Where the Vandermonde matrix has full rank the
  least-squares solution is the one solution of the normal equations, written out by
  Cramer's rule over the power sums. Where it has not, numpy warns and returns the
  minimum-norm solution its singular value decomposition finds; that solution is the
  parameter \<open>lstsq_deficient\<close>.
\<close>

definition power_sum :: "nat \<Rightarrow> real list \<Rightarrow> real" where
  "power_sum k xs = (\<Sum>x\<leftarrow>xs. x ^ k)"

definition moment :: "nat \<Rightarrow> real list \<Rightarrow> real list \<Rightarrow> real" where
  "moment k xs ys = (\<Sum>(x, y)\<leftarrow>zip xs ys. x ^ k * y)"

definition det3 :: "real \<Rightarrow> real \<Rightarrow> real \<Rightarrow> real \<Rightarrow> real \<Rightarrow> real \<Rightarrow> real \<Rightarrow> real \<Rightarrow> real \<Rightarrow> real" where
  "det3 a11 a12 a13 a21 a22 a23 a31 a32 a33 =
     a11 * (a22 * a33 - a23 * a32) - a12 * (a21 * a33 - a23 * a31) + a13 * (a21 * a32 - a22 * a31)"

definition gram_det :: "real list \<Rightarrow> real" where
  "gram_det xs =
     det3 (power_sum 4 xs) (power_sum 3 xs) (power_sum 2 xs)
          (power_sum 3 xs) (power_sum 2 xs) (power_sum 1 xs)
          (power_sum 2 xs) (power_sum 1 xs) (power_sum 0 xs)"

definition normal_solution :: "real list \<Rightarrow> real list \<Rightarrow> real \<times> real \<times> real" where
  "normal_solution xs ys =
     (let s0 = power_sum 0 xs; s1 = power_sum 1 xs; s2 = power_sum 2 xs;
          s3 = power_sum 3 xs; s4 = power_sum 4 xs;
          t0 = moment 0 xs ys; t1 = moment 1 xs ys; t2 = moment 2 xs ys;
          d = gram_det xs
      in (det3 t2 s3 s2 t1 s2 s1 t0 s1 s0 / d,
          det3 s4 t2 s2 s3 t1 s1 s2 t0 s0 / d,
          det3 s4 s3 t2 s3 s2 t1 s2 s1 t0 / d))"

definition np_polyfit2 ::
  "(real list \<Rightarrow> real list \<Rightarrow> real \<times> real \<times> real) \<Rightarrow> real list \<Rightarrow> real list
     \<Rightarrow> error + real \<times> real \<times> real" where
  "np_polyfit2 lstsq_deficient x y =
     (if length x = 0 then Inl TypeError
      else if length x \<noteq> length y then Inl TypeError
      else if gram_det x = 0 then Inr (lstsq_deficient x y)
      else Inr (normal_solution x y))"

text \<open>
  \<^verbatim>\<open>np.roots(p)\<close> for the three coefficients of the fit. numpy strips the leading zeros,
  counts and strips the trailing zeros, takes the eigenvalues of the companion matrix
  of what is left (none when one coefficient is left), and appends one zero root for
  each trailing zero. An all-zero \<^verbatim>\<open>p\<close> has no roots. For two coefficients the
  companion matrix is the number \<open>- b / a\<close>; for three it is
  \<open>[[- b / a, - c / a], [1, 0]]\<close>, whose eigenvalues are the roots of
  \<open>x\<^sup>2 + (b / a) x + c / a\<close>.
\<close>

fun companion_eigvals :: "real list \<Rightarrow> complex list" where
  "companion_eigvals [a, b] = [complex_of_real (- b / a)]"
| "companion_eigvals [a, b, c] =
     (let tr = complex_of_real (- b / a);
          dt = complex_of_real (c / a);
          sq = csqrt (tr * tr - 4 * dt)
      in [(tr + sq) / 2, (tr - sq) / 2])"
| "companion_eigvals p = []"

definition np_roots :: "real \<times> real \<times> real \<Rightarrow> complex list" where
  "np_roots p =
     (case p of (a, b, c) \<Rightarrow>
        let lead = dropWhile (\<lambda>t. t = 0) [a, b, c];
            trailing_zeros = length (takeWhile (\<lambda>t. t = 0) (rev lead));
            core = take (length lead - trailing_zeros) lead
        in if lead = [] then []
           else companion_eigvals core @ replicate trailing_zeros 0)"

text \<open>
  \<^verbatim>\<open>np.mean\<close>: of no values it is not-a-number (with a warning, no exception).
\<close>

datatype scalar = NaN | Num complex

definition np_mean :: "complex list \<Rightarrow> scalar" where
  "np_mean rs = (if rs = [] then NaN else Num (sum_list rs / of_nat (length rs)))"

text \<open>
  Cell 24, for a given peak index and half width:
  \<^verbatim>\<open>peak_lags = lag[index_peak-n:index_peak+n+1].value
peak_vals = corr[index_peak-n:index_peak+n+1].value
p = np.polyfit(peak_lags, peak_vals, deg=2)
roots = np.roots(p)
v_fit = np.mean(roots) * u.km/u.s # maximum lies at mid point between roots\<close>
\<close>

definition refine_peak ::
  "(real list \<Rightarrow> real list \<Rightarrow> real \<times> real \<times> real) \<Rightarrow> real list \<Rightarrow> real list \<Rightarrow> nat \<Rightarrow> nat
     \<Rightarrow> error + scalar" where
  "refine_peak lstsq_deficient lag corr index_peak n =
     (let peak_lags = peak_window lag index_peak n;
          peak_vals = peak_window corr index_peak n
      in case np_polyfit2 lstsq_deficient peak_lags peak_vals of
           Inl e \<Rightarrow> Inl e
         | Inr p \<Rightarrow> Inr (np_mean (np_roots p)))"

text \<open>\<^verbatim>\<open>z = v_fit / const.c.to('km/s')\<close>\<close>

definition c_km_s :: real where
  "c_km_s = 299792458 / 1000"

definition redshift_of :: "scalar \<Rightarrow> scalar" where
  "redshift_of v = (case v of NaN \<Rightarrow> NaN | Num x \<Rightarrow> Num (x / complex_of_real c_km_s))"

text \<open>
  Cells 22 and 24 in sequence, with the notebook's \<^verbatim>\<open>n = 8\<close>: the index of the maximum,
  the read \<^verbatim>\<open>v = lag[index_peak]\<close> (an IndexError past the end of \<^verbatim>\<open>lag\<close>), the
  refinement, and the redshift.
\<close>

definition peak_fit ::
  "(real list \<Rightarrow> real list \<Rightarrow> real \<times> real \<times> real) \<Rightarrow> real list \<Rightarrow> real list
     \<Rightarrow> error + scalar \<times> scalar" where
  "peak_fit lstsq_deficient lag corr =
     (case coarse_peak corr of
        Inl e \<Rightarrow> Inl e
      | Inr index_peak \<Rightarrow>
          if length lag \<le> index_peak then Inl IndexError
          else
            (case refine_peak lstsq_deficient lag corr index_peak 8 of
               Inl e \<Rightarrow> Inl e
             | Inr v_fit \<Rightarrow> Inr (v_fit, redshift_of v_fit)))"

section \<open>Redshifted template (cells 27 and 45)\<close>



section \<open>Sample inputs\<close>

text \<open>A spectrum of one sample, and one of nine samples, without uncertainties.\<close>

definition one_sample :: spectrum where
  "one_sample = \<lparr>wavelength = [5000], flux = [1], uncertainty = None\<rparr>"

definition nine_samples :: spectrum where
  "nine_samples =
     \<lparr>wavelength = [5000, 5001, 5002, 5003, 5004, 5005, 5006, 5007, 5008],
      flux = [1, 2, 3, 4, 5, 4, 3, 2, 1], uncertainty = None\<rparr>"



definition no_deficient :: "real list \<Rightarrow> real list \<Rightarrow> real \<times> real \<times> real" where
  "no_deficient x y = (0, 0, 0)"

text \<open>
  Seventeen lags around zero with: a correlation whose maximum is a lone spike between
  two high ends; a correlation that is a parabola below zero. Twenty-one lags with a
  correlation that is the parabola \<open>- 2 x\<^sup>2 + 41 x + 10\<close>, whose vertex is at \<open>41 / 4\<close>.
\<close>

definition lag17 :: "real list" where
  "lag17 = [- 8, - 7, - 6, - 5, - 4, - 3, - 2, - 1, 0, 1, 2, 3, 4, 5, 6, 7, 8]"

definition corr_spike :: "real list" where
  "corr_spike = [3, 0, 0, 0, 0, 0, 0, 0, 4, 0, 0, 0, 0, 0, 0, 0, 3]"

definition corr_below_zero :: "real list" where
  "corr_below_zero = map (\<lambda>x. - 1 * x\<^sup>2 + 0 * x + - 1) lag17"







text \<open>
  The Blackman window counted from the centre tap of a kernel of \<open>2 M + 1\<close> taps: the
  value of \<open>blackman (2 M + 1)\<close> at the taps \<open>M - k\<close> and \<open>M + k\<close>. It is a derived
  quantity, used to state the symmetry of the kernel.
\<close>

definition centred_window :: "nat \<Rightarrow> nat \<Rightarrow> real" where
  "centred_window M k = 42 / 100 + 5 / 10 * cos (pi * real k / real M) + 8 / 100 * cos (2 * (pi * real k / real M))"

section \<open>Properties of the kernel length\<close>

lemma ceiling_four_over_ge_9:
  fixes b :: real
  assumes "0 < b" and "b < 1 / 2"
  shows "9 \<le> \<lceil>4 / b\<rceil>"
proof -
  have "8 * b < 4" using assms by simp
  then have "8 < 4 / b" using assms(1) by (simp add: pos_less_divide_eq)
  then have "8 < \<lceil>4 / b\<rceil>" by (simp add: less_ceiling_iff)
  then show ?thesis by simp
qed

text \<open>
  C4. For every transition fraction \<open>b\<close> in the open interval \<open>(0, 0.5)\<close>, the kernel
  length \<open>N = ceil(4 / b)\<close>, incremented by one when even, is an odd integer and is at
  least 3.
\<close>

theorem kernel_length_odd_ge_3:
  assumes "0 < b" and "b < 1 / 2"
  shows "odd (kernel_length b) \<and> 3 \<le> kernel_length b"
proof -
  have ge: "9 \<le> \<lceil>4 / b\<rceil>" using assms by (rule ceiling_four_over_ge_9)
  have "odd (kernel_length b)"
    unfolding kernel_length_def Let_def by presburger
  moreover have "3 \<le> kernel_length b"
    using ge by (simp add: kernel_length_def Let_def)
  ultimately show ?thesis by simp
qed

theorem kernel_length_odd_ge_3_witness:
  "(0::real) < 49 / 100 \<and> (49 / 100 :: real) < 1 / 2
   \<and> odd (kernel_length (49 / 100)) \<and> 3 \<le> kernel_length (49 / 100)"
proof -
  have h1: "(0::real) < 49 / 100" by simp
  have h2: "(49 / 100 :: real) < 1 / 2" by simp
  show ?thesis using h1 h2 kernel_length_odd_ge_3 [OF h1 h2] by simp
qed

lemma ceiling_b_notebook: "\<lceil>4 / b_notebook\<rceil> = 9"
  unfolding b_notebook_def by (simp add: ceiling_eq_iff)

lemma kernel_length_b_notebook: "kernel_length b_notebook = 9"
  by (simp add: kernel_length_def Let_def ceiling_b_notebook)

text \<open>
  C10. At the operating point \<open>b = 0.49\<close> of both runs the ceiling of \<open>4 / b\<close> is 9,
  which is odd already, so the increment is not taken and the kernel length is 9.
\<close>

theorem kernel_length_notebook:
  "\<lceil>4 / b_notebook\<rceil> = 9 \<and> \<lceil>4 / b_notebook\<rceil> mod 2 = 1 \<and> kernel_length b_notebook = 9"
  by (simp add: ceiling_b_notebook kernel_length_b_notebook)

section \<open>The coarse peak\<close>

lemma first_index_filter_upt:
  assumes "filter P [0..<n] = i # rest"
  shows "i < n \<and> P i \<and> (\<forall>j<i. \<not> P j)"
proof -
  from assms obtain us vs where d: "[0..<n] = us @ i # vs"
    and no: "\<forall>u\<in>set us. \<not> P u" and pi: "P i"
    by (auto simp: filter_eq_Cons_iff)
  have "i \<in> set [0..<n]" unfolding d by simp
  then have lt: "i < n" by simp
  have len: "length us < n"
    using arg_cong [OF d, of length] by simp
  have "[0..<n] ! length us = i" unfolding d by simp
  then have i: "i = length us" using len by simp
  have "\<not> P j" if "j < i" for j
  proof -
    have "[0..<n] ! j = us ! j" unfolding d using that i by (simp add: nth_append)
    then have "us ! j = j" using that lt by simp
    then have "j \<in> set us" using that i by (metis nth_mem)
    then show ?thesis using no by blast
  qed
  then show ?thesis using lt pi by blast
qed

lemma np_amax_Max: "xs \<noteq> [] \<Longrightarrow> np_amax xs = Inr (Max (set xs))"
  by (cases xs) (simp_all add: Max.set_eq_fold [symmetric])

lemma coarse_peak_empty: "coarse_peak [] = Inl ValueError"
  by (simp add: coarse_peak_def)

text \<open>
  C5. For every non-empty correlation array the coarse peak is an index of the array
  that holds the global maximum, and every index before it holds a strictly smaller
  value: among several indices of the maximum it is the smallest.
\<close>

theorem coarse_peak_first_global_maximum:
  assumes "corr \<noteq> []"
  shows "\<exists>i. coarse_peak corr = Inr i \<and> i < length corr
           \<and> (\<forall>j<length corr. corr ! j \<le> corr ! i)
           \<and> (\<forall>j<i. corr ! j < corr ! i)"
proof -
  let ?m = "Max (set corr)"
  have am: "np_amax corr = Inr ?m" using assms by (rule np_amax_Max)
  have "?m \<in> set corr" using assms by simp
  then obtain k where k: "k < length corr" "corr ! k = ?m"
    by (auto simp: in_set_conv_nth)
  then have "k \<in> set (np_where_eq corr ?m)" by (simp add: np_where_eq_def)
  then obtain i rest where w: "np_where_eq corr ?m = i # rest"
    by (cases "np_where_eq corr ?m") auto
  from first_index_filter_upt [OF w [unfolded np_where_eq_def]]
  have i: "i < length corr" "corr ! i = ?m" "\<forall>j<i. corr ! j \<noteq> ?m" by auto
  have le: "corr ! j \<le> ?m" if "j < length corr" for j
    using that by simp
  have "corr ! j < corr ! i" if "j < i" for j
    using le [of j] i that by (simp add: order_less_le)
  moreover have "coarse_peak corr = Inr i" by (simp add: coarse_peak_def am w)
  ultimately show ?thesis using i le by auto
qed

theorem coarse_peak_first_global_maximum_witness:
  "[1, 5, 2, 5, 3 :: real] \<noteq> []
   \<and> coarse_peak [1, 5, 2, 5, 3] = Inr 1
   \<and> [1, 5, 2, 5, 3 :: real] ! 3 = [1, 5, 2, 5, 3] ! 1"
  using coarse_peak_first_global_maximum [of "[1, 5, 2, 5, 3]"]
  by (simp add: coarse_peak_def np_where_eq_def upt_rec)

section \<open>Applying the filter\<close>

lemma length_raw_taps: "length (raw_taps fc b) = nat (kernel_length b)"
  by (simp add: raw_taps_def Let_def)

lemma length_design_lowpass: "length (design_lowpass fc b) = nat (kernel_length b)"
  by (simp add: design_lowpass_def Let_def length_raw_taps)

lemma length_conv_full: "length (conv_full a v) = length a + length v - 1"
  by (simp add: conv_full_def)

lemma np_convolve_same_length:
  assumes "a \<noteq> []" and "v \<noteq> []"
  shows "\<exists>r. np_convolve_same a v = Inr r \<and> length r = max (length a) (length v)"
proof -
  have la: "0 < length a" and lv: "0 < length v" using assms by simp_all
  have m: "min (n + m - Suc ((m - Suc 0) div 2)) n = n" if "0 < m" for n m :: nat
    using that by (simp add: min_def) presburger
  show ?thesis
    using la lv m [of "length a" "length v"] m [of "length v" "length a"]
    by (auto simp: np_convolve_same_def length_conv_full Let_def)
qed

lemma np_convolve_same_empty:
  "a = [] \<or> v = [] \<Longrightarrow> np_convolve_same a v = Inl ValueError"
  by (auto simp: np_convolve_same_def Let_def)

lemma Spectrum1D_Inr:
  "Spectrum1D w f u = Inr s \<longleftrightarrow>
     length w = length f \<and> (case u of None \<Rightarrow> True | Some us \<Rightarrow> length us = length f)
     \<and> s = \<lparr>wavelength = w, flux = f, uncertainty = u\<rparr>"
  by (auto simp: Spectrum1D_def split: option.splits)

text \<open>
  C6, as amended. For every spectrum the constructor accepts whose flux has at least as
  many samples as the designed kernel has taps, the filter returns a new spectrum whose
  flux has the length of the input's, and whose wavelengths and uncertainty are the
  input's.
\<close>

theorem apply_filter_keeps_length_and_axes:
  assumes b: "0 < b" "b < 1 / 2"
    and s: "Spectrum1D w f u = Inr s"
    and long: "nat (kernel_length b) \<le> length (flux s)"
  shows "\<exists>s'. apply_filter s (design_lowpass fc b) = Inr s'
           \<and> length (flux s') = length (flux s)
           \<and> wavelength s' = wavelength s \<and> uncertainty s' = uncertainty s"
proof -
  let ?k = "design_lowpass fc b"
  have "3 \<le> kernel_length b" using ceiling_four_over_ge_9 [OF b]
    by (simp add: kernel_length_def Let_def)
  then have k: "?k \<noteq> []" "length ?k \<le> length (flux s)"
    using long by (auto simp: length_design_lowpass simp flip: length_0_conv)
  then have f: "flux s \<noteq> []" by auto
  from np_convolve_same_length [OF f k(1)] obtain r
    where r: "np_convolve_same (flux s) ?k = Inr r" "length r = length (flux s)"
    using k(2) by (auto simp: max_def)
  have sv: "length w = length f" "case u of None \<Rightarrow> True | Some us \<Rightarrow> length us = length f"
    "s = \<lparr>wavelength = w, flux = f, uncertainty = u\<rparr>"
    using s by (simp_all add: Spectrum1D_Inr)
  have "apply_filter s ?k = Inr \<lparr>wavelength = w, flux = r, uncertainty = u\<rparr>"
    using r sv by (simp add: apply_filter_def Spectrum1D_def split: option.splits)
  then show ?thesis using r sv by simp
qed

theorem apply_filter_keeps_length_and_axes_witness:
  "0 < b_notebook \<and> b_notebook < 1 / 2
   \<and> Spectrum1D (wavelength nine_samples) (flux nine_samples) None = Inr nine_samples
   \<and> nat (kernel_length b_notebook) \<le> length (flux nine_samples)
   \<and> (\<exists>s'. apply_filter nine_samples (design_lowpass fc_notebook b_notebook) = Inr s'
         \<and> length (flux s') = 9
         \<and> wavelength s' = wavelength nine_samples \<and> uncertainty s' = None)"
proof -
  have b: "0 < b_notebook" "b_notebook < 1 / 2" by (simp_all add: b_notebook_def)
  have s: "Spectrum1D (wavelength nine_samples) (flux nine_samples) None = Inr nine_samples"
    by (simp add: Spectrum1D_def nine_samples_def)
  have l: "nat (kernel_length b_notebook) \<le> length (flux nine_samples)"
    by (simp add: kernel_length_b_notebook nine_samples_def)
  have n: "length (flux nine_samples) = 9" "uncertainty nine_samples = None"
    by (simp_all add: nine_samples_def)
  from apply_filter_keeps_length_and_axes [OF b s l, of fc_notebook] obtain s'
    where "apply_filter nine_samples (design_lowpass fc_notebook b_notebook) = Inr s'"
      and "length (flux s') = length (flux nine_samples)"
      and "wavelength s' = wavelength nine_samples"
      and "uncertainty s' = uncertainty nine_samples"
    by blast
  then have "\<exists>s'. apply_filter nine_samples (design_lowpass fc_notebook b_notebook) = Inr s'
         \<and> length (flux s') = 9
         \<and> wavelength s' = wavelength nine_samples \<and> uncertainty s' = None"
    using n by simp
  then show ?thesis using b s l by blast
qed

text \<open>
  A flux shorter than the kernel: the convolution has the length of the kernel (or
  refuses an empty flux), and the constructor refuses the new flux.
\<close>

lemma apply_filter_short_flux:
  assumes "Spectrum1D w f u = Inr s" and "length (flux s) < length k"
  shows "apply_filter s k = Inl ValueError"
proof (cases "flux s = []")
  case True
  then show ?thesis by (simp add: apply_filter_def np_convolve_same_empty)
next
  case False
  moreover have k: "k \<noteq> []" using assms(2) by auto
  ultimately obtain r where r: "np_convolve_same (flux s) k = Inr r"
    "length r = max (length (flux s)) (length k)"
    using np_convolve_same_length by blast
  have "length (wavelength s) = length (flux s)"
    using assms(1) by (auto simp: Spectrum1D_Inr)
  then have "length (wavelength s) \<noteq> length r" using r(2) assms(2) by simp
  then show ?thesis using r(1) by (simp add: apply_filter_def Spectrum1D_def)
qed

text \<open>
  C6 as stated fails for a spectrum of one sample and the kernel of the notebook's
  operating point, which has nine taps: no spectrum is returned.
\<close>

theorem apply_filter_short_flux_counterexample:
  "Spectrum1D [5000] [1] None = Inr one_sample
   \<and> length (design_lowpass fc_notebook b_notebook) = 9
   \<and> apply_filter one_sample (design_lowpass fc_notebook b_notebook) = Inl ValueError"
proof -
  have s: "Spectrum1D [5000] [1] None = Inr one_sample"
    by (simp add: Spectrum1D_def one_sample_def)
  have l: "length (design_lowpass fc_notebook b_notebook) = 9"
    by (simp add: length_design_lowpass kernel_length_b_notebook)
  have "length (flux one_sample) < length (design_lowpass fc_notebook b_notebook)"
    by (simp add: l one_sample_def)
  from apply_filter_short_flux [OF s this] s l show ?thesis by simp
qed

section \<open>The refinement window\<close>



lemma peak_window_interior:
  assumes "8 \<le> i" and "i + 9 \<le> length xs"
  shows "peak_window xs i 8 = take 17 (drop (i - 8) xs)"
proof -
  have "nat (int i + 8 + 1 - (int i - 8)) = 17" by simp
  then show ?thesis
    using assms by (simp add: peak_window_def py_slice_def Let_def min_def nat_diff_distrib')
qed








section \<open>The least-squares parabola and its roots\<close>

lemma power_sum_Nil [simp]: "power_sum k [] = 0"
  by (simp add: power_sum_def)

lemma power_sum_Cons [simp]: "power_sum k (x # xs) = x ^ k + power_sum k xs"
  by (simp add: power_sum_def)

lemma moment_quadratic:
  "moment 0 xs (map (\<lambda>x. a * x\<^sup>2 + b * x + c) xs)
     = a * power_sum 2 xs + b * power_sum 1 xs + c * power_sum 0 xs"
  "moment 1 xs (map (\<lambda>x. a * x\<^sup>2 + b * x + c) xs)
     = a * power_sum 3 xs + b * power_sum 2 xs + c * power_sum 1 xs"
  "moment 2 xs (map (\<lambda>x. a * x\<^sup>2 + b * x + c) xs)
     = a * power_sum 4 xs + b * power_sum 3 xs + c * power_sum 2 xs"
  by (induction xs)
    (simp_all add: moment_def algebra_simps power2_eq_square power3_eq_cube power4_eq_xxxx)

lemma normal_solution_quadratic:
  assumes "gram_det xs \<noteq> 0"
  shows "normal_solution xs (map (\<lambda>x. a * x\<^sup>2 + b * x + c) xs) = (a, b, c)"
proof -
  let ?ys = "map (\<lambda>x. a * x\<^sup>2 + b * x + c) xs"
  define s0 s1 s2 s3 s4 where s: "s0 = power_sum 0 xs" "s1 = power_sum 1 xs"
    "s2 = power_sum 2 xs" "s3 = power_sum 3 xs" "s4 = power_sum 4 xs"
  have t: "moment 0 xs ?ys = a * s2 + b * s1 + c * s0"
    "moment 1 xs ?ys = a * s3 + b * s2 + c * s1"
    "moment 2 xs ?ys = a * s4 + b * s3 + c * s2"
    unfolding s by (rule moment_quadratic)+
  have d: "gram_det xs = det3 s4 s3 s2 s3 s2 s1 s2 s1 s0"
    unfolding s gram_det_def ..
  have a: "det3 (a * s4 + b * s3 + c * s2) s3 s2 (a * s3 + b * s2 + c * s1) s2 s1
              (a * s2 + b * s1 + c * s0) s1 s0 = a * gram_det xs"
    unfolding d det3_def by (simp add: algebra_simps)
  have b: "det3 s4 (a * s4 + b * s3 + c * s2) s2 s3 (a * s3 + b * s2 + c * s1) s1
              s2 (a * s2 + b * s1 + c * s0) s0 = b * gram_det xs"
    unfolding d det3_def by (simp add: algebra_simps)
  have c: "det3 s4 s3 (a * s4 + b * s3 + c * s2) s3 s2 (a * s3 + b * s2 + c * s1)
              s2 s1 (a * s2 + b * s1 + c * s0) = c * gram_det xs"
    unfolding d det3_def by (simp add: algebra_simps)
  show ?thesis
    unfolding normal_solution_def Let_def t s [symmetric] a b c
    using assms by simp
qed

lemma np_mean_np_roots:
  assumes "a \<noteq> 0"
  shows "np_mean (np_roots (a, b, c)) = Num (complex_of_real (- b / (2 * a)))"
proof (cases "c = 0")
  case False
  then show ?thesis using assms
    by (simp add: np_roots_def np_mean_def Let_def field_simps)
next
  case True
  then show ?thesis using assms
    by (cases "b = 0") (simp_all add: np_roots_def np_mean_def Let_def field_simps)
qed


lemma sum_sq_shift:
  "(\<Sum>v\<leftarrow>us. v\<^sup>2 * (v - u)\<^sup>2) = power_sum 4 us - 2 * u * power_sum 3 us + u\<^sup>2 * power_sum 2 us"
  by (induction us)
    (simp_all add: algebra_simps power2_eq_square power3_eq_cube power4_eq_xxxx)

lemma sum_sq_shift_nonneg:
  fixes u :: real
  shows "0 \<le> (\<Sum>v\<leftarrow>us. v\<^sup>2 * (v - u)\<^sup>2)"
  by (rule sum_list_nonneg) auto

lemma sum_sq_shift_pos:
  fixes u :: real
  assumes "v \<in> set us" and "v \<noteq> 0" and "v \<noteq> u"
  shows "0 < (\<Sum>v\<leftarrow>us. v\<^sup>2 * (v - u)\<^sup>2)"
  using assms
proof (induction us)
  case Nil
  then show ?case by simp
next
  case (Cons w ws)
  show ?case
  proof (cases "v = w")
    case True
    then have "0 < w\<^sup>2 * (w - u)\<^sup>2" using Cons.prems by simp
    then have "0 < w\<^sup>2 * (w - u)\<^sup>2 + (\<Sum>v\<leftarrow>ws. v\<^sup>2 * (v - u)\<^sup>2)"
      using sum_sq_shift_nonneg [where us = ws and u = u] by linarith
    then show ?thesis by simp
  next
    case False
    then have "0 < (\<Sum>v\<leftarrow>ws. v\<^sup>2 * (v - u)\<^sup>2)" using Cons by simp
    moreover have "0 \<le> w\<^sup>2 * (w - u)\<^sup>2" by simp
    ultimately have "0 < w\<^sup>2 * (w - u)\<^sup>2 + (\<Sum>v\<leftarrow>ws. v\<^sup>2 * (v - u)\<^sup>2)"
      by linarith
    then show ?thesis by simp
  qed
qed

lemma gram2_Cons:
  "power_sum 4 (u # us) * power_sum 2 (u # us) - (power_sum 3 (u # us))\<^sup>2
     = (power_sum 4 us * power_sum 2 us - (power_sum 3 us)\<^sup>2)
       + u\<^sup>2 * (\<Sum>v\<leftarrow>us. v\<^sup>2 * (v - u)\<^sup>2)"
  unfolding sum_sq_shift
  by (simp add: algebra_simps power2_eq_square power3_eq_cube power4_eq_xxxx)

lemma gram2_nonneg: "0 \<le> power_sum 4 us * power_sum 2 us - (power_sum 3 us)\<^sup>2"
proof (induction us)
  case Nil
  then show ?case by simp
next
  case (Cons u us)
  have "0 \<le> u\<^sup>2 * (\<Sum>v\<leftarrow>us. v\<^sup>2 * (v - u)\<^sup>2)"
    using sum_sq_shift_nonneg [where us = us and u = u] by simp
  then show ?case unfolding gram2_Cons using Cons by linarith
qed

lemma gram2_pos:
  assumes "v \<in> set us" and "w \<in> set us" and "v \<noteq> 0" and "w \<noteq> 0" and "v \<noteq> w"
  shows "0 < power_sum 4 us * power_sum 2 us - (power_sum 3 us)\<^sup>2"
  using assms
proof (induction us)
  case Nil
  then show ?case by simp
next
  case (Cons u us)
  have step: "0 \<le> u\<^sup>2 * (\<Sum>v\<leftarrow>us. v\<^sup>2 * (v - u)\<^sup>2)"
    using sum_sq_shift_nonneg [where us = us and u = u] by simp
  have pos: "0 < u\<^sup>2 * (\<Sum>v\<leftarrow>us. v\<^sup>2 * (v - u)\<^sup>2)"
    if "t \<in> set us" "t \<noteq> 0" "t \<noteq> u" "u \<noteq> 0" for t
    using sum_sq_shift_pos [OF that(1-3)] that(4) by simp
  consider "v \<in> set us \<and> w \<in> set us" | "v = u \<and> w \<in> set us" | "w = u \<and> v \<in> set us"
    using Cons.prems by auto
  then show ?case
  proof cases
    case 1
    then have "0 < power_sum 4 us * power_sum 2 us - (power_sum 3 us)\<^sup>2"
      using Cons by blast
    then show ?thesis unfolding gram2_Cons using step by linarith
  next
    case 2
    then have "0 < u\<^sup>2 * (\<Sum>v\<leftarrow>us. v\<^sup>2 * (v - u)\<^sup>2)"
      using pos [of w] Cons.prems by auto
    then show ?thesis unfolding gram2_Cons using gram2_nonneg [of us] by linarith
  next
    case 3
    then have "0 < u\<^sup>2 * (\<Sum>v\<leftarrow>us. v\<^sup>2 * (v - u)\<^sup>2)"
      using pos [of v] Cons.prems by auto
    then show ?thesis unfolding gram2_Cons using gram2_nonneg [of us] by linarith
  qed
qed

lemma power_sum_shift:
  "power_sum 2 (map (\<lambda>y. y - x) xs) = power_sum 2 xs - 2 * x * power_sum 1 xs + x\<^sup>2 * power_sum 0 xs"
  "power_sum 3 (map (\<lambda>y. y - x) xs)
     = power_sum 3 xs - 3 * x * power_sum 2 xs + 3 * x\<^sup>2 * power_sum 1 xs - x ^ 3 * power_sum 0 xs"
  "power_sum 4 (map (\<lambda>y. y - x) xs)
     = power_sum 4 xs - 4 * x * power_sum 3 xs + 6 * x\<^sup>2 * power_sum 2 xs
       - 4 * x ^ 3 * power_sum 1 xs + x ^ 4 * power_sum 0 xs"
  by (induction xs)
    (simp_all add: algebra_simps power2_eq_square power3_eq_cube power4_eq_xxxx)

lemma gram_det_Cons:
  "gram_det (x # xs) = gram_det xs
     + (power_sum 4 (map (\<lambda>y. y - x) xs) * power_sum 2 (map (\<lambda>y. y - x) xs)
        - (power_sum 3 (map (\<lambda>y. y - x) xs))\<^sup>2)"
  unfolding power_sum_shift gram_det_def det3_def power_sum_Cons
  by (simp add: algebra_simps power2_eq_square power3_eq_cube power4_eq_xxxx)


lemma gram_det_Nil: "gram_det [] = 0"
  by (simp add: gram_det_def det3_def)

lemma gram_det_nonneg: "0 \<le> gram_det xs"
proof (induction xs)
  case Nil
  then show ?case by (simp add: gram_det_Nil)
next
  case (Cons x xs)
  then show ?case
    unfolding gram_det_Cons using gram2_nonneg [of "map (\<lambda>y. y - x) xs"] by linarith
qed

lemma gram_det_pos:
  assumes "x \<in> set xs" and "y \<in> set xs" and "z \<in> set xs"
    and "x \<noteq> y" and "x \<noteq> z" and "y \<noteq> z"
  shows "0 < gram_det xs"
  using assms
proof (induction xs)
  case Nil
  then show ?case by simp
next
  case (Cons a xs)
  let ?us = "map (\<lambda>y. y - a) xs"
  have two: "0 < power_sum 4 ?us * power_sum 2 ?us - (power_sum 3 ?us)\<^sup>2"
    if "p \<in> set xs" "q \<in> set xs" "p \<noteq> a" "q \<noteq> a" "p \<noteq> q" for p q
  proof (rule gram2_pos)
    show "p - a \<in> set ?us" "q - a \<in> set ?us" using that by auto
    show "p - a \<noteq> 0" "q - a \<noteq> 0" "p - a \<noteq> q - a" using that by auto
  qed
  consider "x \<in> set xs \<and> y \<in> set xs \<and> z \<in> set xs"
    | "x = a \<and> y \<in> set xs \<and> z \<in> set xs"
    | "y = a \<and> x \<in> set xs \<and> z \<in> set xs"
    | "z = a \<and> x \<in> set xs \<and> y \<in> set xs"
    using Cons.prems by auto
  then show ?case
  proof cases
    case 1
    then have "0 < gram_det xs" using Cons by blast
    then show ?thesis unfolding gram_det_Cons using gram2_nonneg [of ?us] by linarith
  next
    case 2
    then have "0 < power_sum 4 ?us * power_sum 2 ?us - (power_sum 3 ?us)\<^sup>2"
      using two [of y z] Cons.prems by auto
    then show ?thesis unfolding gram_det_Cons using gram_det_nonneg [of xs] by linarith
  next
    case 3
    then have "0 < power_sum 4 ?us * power_sum 2 ?us - (power_sum 3 ?us)\<^sup>2"
      using two [of x z] Cons.prems by auto
    then show ?thesis unfolding gram_det_Cons using gram_det_nonneg [of xs] by linarith
  next
    case 4
    then have "0 < power_sum 4 ?us * power_sum 2 ?us - (power_sum 3 ?us)\<^sup>2"
      using two [of x y] Cons.prems by auto
    then show ?thesis unfolding gram_det_Cons using gram_det_nonneg [of xs] by linarith
  qed
qed

lemma three_of_card:
  assumes "3 \<le> card S"
  shows "\<exists>x\<in>S. \<exists>y\<in>S. \<exists>z\<in>S. x \<noteq> y \<and> x \<noteq> z \<and> y \<noteq> z"
proof -
  have fin: "finite S" using assms by (cases "finite S") auto
  have "S \<noteq> {}" using assms by auto
  then obtain x where x: "x \<in> S" by blast
  have "2 \<le> card (S - {x})" using assms x fin by simp
  then have "card (S - {x}) \<noteq> 0" by simp
  then have "S - {x} \<noteq> {}" by (metis card.empty)
  then obtain y where y: "y \<in> S" "y \<noteq> x" by blast
  have "1 \<le> card (S - {x} - {y})" using assms x y fin by simp
  then have "card (S - {x} - {y}) \<noteq> 0" by simp
  then have "S - {x} - {y} \<noteq> {}" by (metis card.empty)
  then obtain z where "z \<in> S" "z \<noteq> x" "z \<noteq> y" by blast
  then show ?thesis using x y by metis
qed

lemma gram_det_pos_card:
  assumes "3 \<le> card (set xs)"
  shows "0 < gram_det xs"
proof -
  from three_of_card [OF assms] obtain x y z
    where "x \<in> set xs" "y \<in> set xs" "z \<in> set xs" "x \<noteq> y" "x \<noteq> z" "y \<noteq> z"
    by blast
  then show ?thesis by (rule gram_det_pos)
qed

lemma np_polyfit2_quadratic:
  assumes "3 \<le> card (set xs)"
  shows "np_polyfit2 f xs (map (\<lambda>x. a * x\<^sup>2 + b * x + c) xs) = Inr (a, b, c)"
proof -
  have d: "gram_det xs \<noteq> 0" using gram_det_pos_card [OF assms] by simp
  have "xs \<noteq> []" using assms by auto
  then show ?thesis
    using d by (simp add: np_polyfit2_def normal_solution_quadratic)
qed

lemma refine_peak_of_fit:
  assumes "np_polyfit2 f (peak_window lag i n) (peak_window corr i n) = Inr (a, b, c)"
    and "a \<noteq> 0"
  shows "refine_peak f lag corr i n = Inr (Num (complex_of_real (- b / (2 * a))))"
  using assms by (simp add: refine_peak_def Let_def np_mean_np_roots)


text \<open>
  C3, as amended. For every refinement window whose fitted polynomial opens upward or
  has complex roots, peak refinement signals no error: it returns the mean of the two
  roots, \<open>- b / (2 a)\<close>, as the velocity.
\<close>

theorem refine_peak_returns_for_degenerate_fit:
  assumes "np_polyfit2 f (peak_window lag i n) (peak_window corr i n) = Inr (a, b, c)"
    and "0 < a \<or> b\<^sup>2 - 4 * a * c < 0"
  shows "refine_peak f lag corr i n = Inr (Num (complex_of_real (- b / (2 * a))))
    \<and> refine_peak f lag corr i n \<noteq> Inl DegenerateFitError"
proof -
  have "a \<noteq> 0" using assms(2) by auto
  with assms(1) have "refine_peak f lag corr i n = Inr (Num (complex_of_real (- b / (2 * a))))"
    by (rule refine_peak_of_fit)
  then show ?thesis by simp
qed


subsection \<open>Refinement on the sample inputs\<close>

lemma py_slice_map: "py_slice (map f xs) s e = map f (py_slice xs s e)"
  by (simp add: py_slice_def Let_def take_map drop_map)

lemma peak_window_map: "peak_window (map f xs) i n = map f (peak_window xs i n)"
  by (simp add: peak_window_def py_slice_map)

lemma peak_window_lag17: "peak_window lag17 8 8 = lag17"
  by (simp add: peak_window_def py_slice_def lag17_def)

lemma peak_window_corr_spike: "peak_window corr_spike 8 8 = corr_spike"
  by (simp add: peak_window_def py_slice_def corr_spike_def)

lemma coarse_peak_corr_spike: "coarse_peak corr_spike = Inr 8"
  by (simp add: coarse_peak_def corr_spike_def np_where_eq_def upt_rec)

lemma power_sums_lag17:
  "power_sum 0 lag17 = 17" "power_sum 1 lag17 = 0" "power_sum 2 lag17 = 408"
  "power_sum 3 lag17 = 0" "power_sum 4 lag17 = 17544"
  by (simp_all add: lag17_def)

lemma moments_corr_spike:
  "moment 0 lag17 corr_spike = 10" "moment 1 lag17 corr_spike = 0"
  "moment 2 lag17 corr_spike = 384"
  by (simp_all add: moment_def lag17_def corr_spike_def)

lemma polyfit_corr_spike:
  "np_polyfit2 no_deficient lag17 corr_spike = Inr (6 / 323, 0, 46 / 323)"
proof -
  have l: "length lag17 = 17" "length corr_spike = 17"
    by (simp_all add: lag17_def corr_spike_def)
  have d: "gram_det lag17 = 53767872"
    unfolding gram_det_def power_sums_lag17 det3_def by simp
  have "normal_solution lag17 corr_spike = (6 / 323, 0, 46 / 323)"
    unfolding normal_solution_def Let_def d power_sums_lag17 moments_corr_spike det3_def
    by simp
  then show ?thesis by (simp add: np_polyfit2_def l d)
qed

text \<open>
  C3 as stated asks for a DegenerateFitError. For the spike between two high ends the
  maximum is at the centre, the fitted parabola opens upward and has complex roots, and
  refinement returns the velocity 0.
\<close>

theorem refine_peak_upward_fit_counterexample:
  "coarse_peak corr_spike = Inr 8
   \<and> np_polyfit2 no_deficient (peak_window lag17 8 8) (peak_window corr_spike 8 8)
       = Inr (6 / 323, 0, 46 / 323)
   \<and> (0::real) < 6 / 323 \<and> (0::real)\<^sup>2 - 4 * (6 / 323) * (46 / 323) < 0
   \<and> refine_peak no_deficient lag17 corr_spike 8 8 = Inr (Num 0)
   \<and> peak_fit no_deficient lag17 corr_spike = Inr (Num 0, Num 0)"
proof -
  have f: "np_polyfit2 no_deficient (peak_window lag17 8 8) (peak_window corr_spike 8 8)
       = Inr (6 / 323, 0, 46 / 323)"
    by (simp add: peak_window_lag17 peak_window_corr_spike polyfit_corr_spike)
  have r: "refine_peak no_deficient lag17 corr_spike 8 8 = Inr (Num 0)"
    using refine_peak_of_fit [OF f] by simp
  have "length lag17 = 17" by (simp add: lag17_def)
  then have p: "peak_fit no_deficient lag17 corr_spike = Inr (Num 0, Num 0)"
    by (simp add: peak_fit_def coarse_peak_corr_spike r redshift_of_def)
  show ?thesis using f r p coarse_peak_corr_spike by simp
qed

theorem refine_peak_returns_for_degenerate_fit_witness:
  "np_polyfit2 no_deficient (peak_window lag17 8 8) (peak_window corr_below_zero 8 8)
       = Inr (- 1, 0, - 1)
   \<and> (0::real)\<^sup>2 - 4 * (- 1) * (- 1) < 0
   \<and> refine_peak no_deficient lag17 corr_below_zero 8 8 = Inr (Num 0)"
proof -
  have c: "3 \<le> card (set lag17)" by (simp add: lag17_def)
  have f: "np_polyfit2 no_deficient (peak_window lag17 8 8) (peak_window corr_below_zero 8 8)
       = Inr (- 1, 0, - 1)"
    unfolding corr_below_zero_def peak_window_map peak_window_lag17
    using c by (rule np_polyfit2_quadratic)
  have h: "(0::real) < - 1 \<or> (0::real)\<^sup>2 - 4 * (- 1) * (- 1) < 0" by simp
  from refine_peak_returns_for_degenerate_fit [OF f h] f show ?thesis by simp
qed


section \<open>The invariant of the data model\<close>



lemma make_obs_lengths:
  "length wht \<noteq> length fluxd \<Longrightarrow> make_obs cd1_1 crval1 fluxd wht = Inl ValueError"
  by (simp add: make_obs_def Let_def)










section \<open>Unity gain of the designed kernel\<close>

subsection \<open>Partial sums of the sine series are not negative\<close>

text \<open>
  The sum of \<open>sin (k t) / k\<close> over \<open>k = 1..n\<close> is not negative on \<open>[0, \<pi>]\<close>. At an
  interior minimum the derivative, a sum of cosines in closed form, vanishes, which
  forces \<open>sin (n t) \<ge> 0\<close>; so the minimum is not below that of the sum to \<open>n - 1\<close>.
\<close>

lemma dirichlet_kernel_sum:
  "2 * sin (x / 2) * (\<Sum>k = 1..n. cos (real k * x)) = sin ((real n + 1 / 2) * x) - sin (x / 2)"
proof (induction n)
  case 0
  then show ?case by simp
next
  case (Suc n)
  have p: "2 * sin (x / 2) * cos (real (Suc n) * x)
      = sin ((real (Suc n) + 1 / 2) * x) - sin ((real n + 1 / 2) * x)"
  proof -
    have a: "(real (Suc n) + 1 / 2) * x = real (Suc n) * x + x / 2"
      and b: "(real n + 1 / 2) * x = real (Suc n) * x - x / 2"
      by (simp_all add: algebra_simps)
    show ?thesis unfolding a b by (simp add: sin_add sin_diff)
  qed
  have "2 * sin (x / 2) * (\<Sum>k = 1..Suc n. cos (real k * x))
      = 2 * sin (x / 2) * (\<Sum>k = 1..n. cos (real k * x)) + 2 * sin (x / 2) * cos (real (Suc n) * x)"
    by (simp add: algebra_simps)
  also have "\<dots> = sin ((real (Suc n) + 1 / 2) * x) - sin (x / 2)"
    unfolding Suc p by simp
  finally show ?case .
qed

lemma sine_sum_deriv:
  "((\<lambda>t. \<Sum>k = 1..n. sin (real k * t) / real k) has_field_derivative
      (\<Sum>k = 1..n. cos (real k * x))) (at x)"
proof (rule DERIV_sum)
  fix k
  assume "k \<in> {1..n}"
  then have k: "real k \<noteq> 0" by simp
  show "((\<lambda>t. sin (real k * t) / real k) has_field_derivative cos (real k * x)) (at x)"
    using k by (auto intro!: derivative_eq_intros)
qed

lemma sine_sum_at_0: "(\<Sum>k = 1..n. sin (real k * 0) / real k) = 0"
  by simp

lemma sine_sum_at_pi: "(\<Sum>k = 1..n. sin (real k * pi) / real k) = 0"
proof -
  have "sin (real k * pi) / real k = 0" for k :: nat
    using sin_npi [of k] by simp
  then show ?thesis by simp
qed

lemma sin_multiple_at_critical_point:
  assumes x: "0 < x" "x < pi" and crit: "(\<Sum>k = 1..n. cos (real k * x)) = 0"
  shows "0 \<le> sin (real n * x)"
proof -
  let ?a = "(real n + 1 / 2) * x"
  have s: "sin ?a = sin (x / 2)"
    using dirichlet_kernel_sum [of x n] crit by simp
  have h: "0 < sin (x / 2)" "0 < cos (x / 2)"
    using x by (simp_all add: sin_gt_zero cos_gt_zero_pi)
  have "(cos ?a)\<^sup>2 = (cos (x / 2))\<^sup>2"
    using s by (simp add: cos_squared_eq)
  then have "cos ?a = cos (x / 2) \<or> cos ?a = - cos (x / 2)"
    by (simp add: power2_eq_iff)
  then have c: "cos ?a \<le> cos (x / 2)" using h(2) by auto
  have "real n * x = ?a - x / 2" by (simp add: algebra_simps)
  then have "sin (real n * x) = sin ?a * cos (x / 2) - cos ?a * sin (x / 2)"
    by (simp add: sin_diff)
  also have "\<dots> = sin (x / 2) * (cos (x / 2) - cos ?a)"
    unfolding s by (simp add: algebra_simps)
  finally show ?thesis using h(1) c by simp
qed

lemma fejer_jackson:
  assumes "0 \<le> t" and "t \<le> pi"
  shows "0 \<le> (\<Sum>k = 1..n. sin (real k * t) / real k)"
  using assms
proof (induction n arbitrary: t)
  case 0
  then show ?case by simp
next
  case (Suc n)
  let ?F = "\<lambda>t. \<Sum>k = 1..Suc n. sin (real k * t) / real k"
  have cont: "\<forall>x. 0 \<le> x \<and> x \<le> pi \<longrightarrow> isCont ?F x"
    using sine_sum_deriv [of "Suc n"] by (blast intro: DERIV_isCont)
  obtain m x0 where low: "\<forall>x. 0 \<le> x \<and> x \<le> pi \<longrightarrow> m \<le> ?F x"
    and x0: "0 \<le> x0" "x0 \<le> pi" "?F x0 = m"
    using isCont_eq_Lb [OF _ cont] pi_ge_zero by blast
  have "0 \<le> ?F x0"
  proof (cases "x0 = 0 \<or> x0 = pi")
    case True
    then show ?thesis
    proof
      assume "x0 = 0"
      then show ?thesis using sine_sum_at_0 [of "Suc n"] by (simp only: order_refl)
    next
      assume "x0 = pi"
      then show ?thesis using sine_sum_at_pi [of "Suc n"] by (simp only: order_refl)
    qed
  next
    case False
    then have i: "0 < x0" "x0 < pi" using x0 by auto
    define d where "d = min x0 (pi - x0)"
    have d: "0 < d" using i by (simp add: d_def)
    have loc: "\<forall>y. \<bar>x0 - y\<bar> < d \<longrightarrow> ?F x0 \<le> ?F y"
    proof (intro allI impI)
      fix y
      assume "\<bar>x0 - y\<bar> < d"
      then have "0 \<le> y \<and> y \<le> pi" unfolding d_def by auto
      then show "?F x0 \<le> ?F y" using low x0(3) by simp
    qed
    have crit: "(\<Sum>k = 1..Suc n. cos (real k * x0)) = 0"
      using DERIV_local_min [OF sine_sum_deriv [of "Suc n" x0] d loc] .
    have "0 \<le> sin (real (Suc n) * x0)"
      using i crit by (rule sin_multiple_at_critical_point)
    then have "0 \<le> sin (real (Suc n) * x0) / real (Suc n)" by simp
    moreover have "0 \<le> (\<Sum>k = 1..n. sin (real k * x0) / real k)"
      using Suc.IH x0 by simp
    ultimately show ?thesis by simp
  qed
  then have "0 \<le> m" using x0(3) by simp
  then show ?case using low Suc.prems by force
qed


subsection \<open>Summation by parts, and the sum around the centre tap\<close>

lemma abel_summation_bound:
  fixes W a :: "nat \<Rightarrow> real"
  assumes "\<And>k. 1 \<le> k \<Longrightarrow> k < M \<Longrightarrow> W (Suc k) \<le> W k"
    and "\<And>n. n \<le> M \<Longrightarrow> 0 \<le> (\<Sum>k = 1..n. a k)"
  shows "W M * (\<Sum>k = 1..M. a k) \<le> (\<Sum>k = 1..M. W k * a k)"
  using assms
proof (induction M)
  case 0
  then show ?case by simp
next
  case (Suc M)
  have ih: "W M * (\<Sum>k = 1..M. a k) \<le> (\<Sum>k = 1..M. W k * a k)"
    using Suc.prems by (intro Suc.IH) auto
  have part: "0 \<le> (\<Sum>k = 1..M. a k)" using Suc.prems(2) [of M] by simp
  have "W (Suc M) * (\<Sum>k = 1..M. a k) \<le> W M * (\<Sum>k = 1..M. a k)"
  proof (cases "M = 0")
    case True
    then show ?thesis by simp
  next
    case False
    then have "W (Suc M) \<le> W M" using Suc.prems(1) [of M] by simp
    then show ?thesis using part by (rule mult_right_mono)
  qed
  then have "W (Suc M) * (\<Sum>k = 1..M. a k) + W (Suc M) * a (Suc M)
      \<le> (\<Sum>k = 1..M. W k * a k) + W (Suc M) * a (Suc M)"
    using ih by linarith
  then show ?case by (simp add: algebra_simps)
qed

lemma sum_around_centre:
  fixes g :: "nat \<Rightarrow> real"
  assumes "M \<le> c"
  shows "(\<Sum>i = c - M..c + M. g i) = g c + (\<Sum>k = 1..M. g (c - k) + g (c + k))"
  using assms
proof (induction M)
  case 0
  then show ?case by simp
next
  case (Suc M)
  have s: "{c - Suc M..c + Suc M} = insert (c - Suc M) (insert (c + Suc M) {c - M..c + M})"
    using Suc.prems by auto
  have "(\<Sum>i = c - Suc M..c + Suc M. g i)
      = g (c - Suc M) + (g (c + Suc M) + (\<Sum>i = c - M..c + M. g i))"
  proof -
    have n1: "c - Suc M \<notin> insert (c + Suc M) {c - M..c + M}"
      using Suc.prems by auto
    have n2: "c + Suc M \<notin> {c - M..c + M}" by simp
    show ?thesis unfolding s by (simp only: sum.insert [OF _ n1] sum.insert [OF _ n2] finite_insert finite_atLeastAtMost)
  qed
  also have "(\<Sum>i = c - M..c + M. g i) = g c + (\<Sum>k = 1..M. g (c - k) + g (c + k))"
    using Suc by simp
  finally show ?case by simp
qed

subsection \<open>The window falls from the centre tap to the edge\<close>

lemma centred_window_poly:
  "centred_window M k = 34 / 100 + 1 / 2 * cos (pi * real k / real M)
     + 16 / 100 * (cos (pi * real k / real M))\<^sup>2"
  unfolding centred_window_def cos_double_cos by (simp add: algebra_simps)

lemma centred_window_decreasing:
  assumes "k < M"
  shows "centred_window M (Suc k) \<le> centred_window M k"
proof -
  let ?c = "cos (pi * real k / real M)" and ?d = "cos (pi * real (Suc k) / real M)"
  have M: "0 < real M" using assms by simp
  have "real (Suc k) \<le> real M" using assms by simp
  then have "pi * real (Suc k) \<le> pi * real M" by (intro mult_left_mono) simp_all
  then have "pi * real (Suc k) / real M \<le> pi * 1"
    using M by (simp add: field_simps)
  moreover have "0 \<le> pi * real k / real M" by simp
  moreover have "pi * real k / real M \<le> pi * real (Suc k) / real M"
    using M by (simp add: field_simps)
  ultimately have le: "?d \<le> ?c" by (intro cos_monotone_0_pi_le) simp_all
  have b: "- 1 \<le> ?c" "- 1 \<le> ?d" by simp_all
  have id: "(34 / 100 + 1 / 2 * c + 16 / 100 * c\<^sup>2) - (34 / 100 + 1 / 2 * d + 16 / 100 * d\<^sup>2)
      = (c - d) * (1 / 2 + 16 / 100 * (c + d))" for c d :: real
    by (simp add: field_simps power2_eq_square)
  have "centred_window M k - centred_window M (Suc k)
      = (?c - ?d) * (1 / 2 + 16 / 100 * (?c + ?d))"
    unfolding centred_window_poly by (rule id)
  moreover have "0 \<le> (?c - ?d) * (1 / 2 + 16 / 100 * (?c + ?d))"
  proof (rule mult_nonneg_nonneg)
    show "0 \<le> ?c - ?d" using le by simp
    have "0 \<le> 1 / 2 + 16 / 100 * (c + d)" if "- 1 \<le> c" "- 1 \<le> d" for c d :: real
      using that by (simp add: field_simps)
    then show "0 \<le> 1 / 2 + 16 / 100 * (?c + ?d)" using b by blast
  qed
  ultimately show ?thesis by linarith
qed

lemma centred_window_edge: "0 < M \<Longrightarrow> centred_window M M = 0"
  by (simp add: centred_window_def)


subsection \<open>The sum of the taps before normalization is positive\<close>

lemma np_sinc_nonzero: "x \<noteq> 0 \<Longrightarrow> np_sinc x = sin (pi * x) / (pi * x)"
  by (simp add: np_sinc_def Let_def)

lemma np_sinc_zero_pos: "0 < np_sinc 0"
proof -
  define e :: real where "e = 1 / 10 ^ 20"
  have e: "0 < e" "e < 1" by (simp_all add: e_def)
  have "0 < pi * e" using e by simp
  moreover have "pi * e < pi" using e by simp
  ultimately have "0 < sin (pi * e) / (pi * e)"
    by (intro divide_pos_pos sin_gt_zero)
  then show ?thesis by (simp add: np_sinc_def Let_def e_def)
qed

lemma np_sinc_even: "x \<noteq> 0 \<Longrightarrow> np_sinc (- x) = np_sinc x"
  by (simp add: np_sinc_nonzero)

lemma blackman_below_centre:
  assumes "0 < M" and "k \<le> M"
  shows "blackman (2 * int M + 1) (real (M - k)) = centred_window M k"
proof -
  let ?x = "pi * real k / real M"
  have M: "real M \<noteq> 0" using assms by simp
  have a: "2 * pi * real (M - k) / (real_of_int (2 * int M + 1) - 1) = pi - ?x"
    using assms M by (simp add: field_simps)
  have b: "4 * pi * real (M - k) / (real_of_int (2 * int M + 1) - 1) = 2 * pi - 2 * ?x"
    using assms M by (simp add: field_simps)
  have "cos (2 * pi - 2 * ?x) = cos (2 * ?x)"
    using cos_2pi_minus [of "2 * ?x"] by simp
  then show ?thesis
    unfolding blackman_def a b centred_window_def by simp
qed

lemma blackman_above_centre:
  assumes "0 < M"
  shows "blackman (2 * int M + 1) (real (M + k)) = centred_window M k"
proof -
  let ?x = "pi * real k / real M"
  have M: "real M \<noteq> 0" using assms by simp
  have a: "2 * pi * real (M + k) / (real_of_int (2 * int M + 1) - 1) = ?x + pi"
    using assms M by (simp add: field_simps)
  have b: "4 * pi * real (M + k) / (real_of_int (2 * int M + 1) - 1) = 2 * ?x + 2 * pi"
    using assms M by (simp add: field_simps)
  show ?thesis
    unfolding blackman_def a b centred_window_def by (simp only: cos_periodic_pi cos_periodic)
qed

lemma centred_window_centre: "centred_window M 0 = 1"
  by (simp add: centred_window_def)


lemma kernel_length_centre:
  assumes "0 < b" and "b < 1 / 2"
  obtains M where "kernel_length b = 2 * int M + 1" and "4 \<le> M"
proof -
  have o: "odd (kernel_length b)"
    unfolding kernel_length_def Let_def by presburger
  have g: "9 \<le> kernel_length b"
    using ceiling_four_over_ge_9 [OF assms] by (simp add: kernel_length_def Let_def)
  from o obtain q where q: "kernel_length b = 2 * q + 1" by (auto elim: oddE)
  with g have "4 \<le> q" by simp
  then have "kernel_length b = 2 * int (nat q) + 1" "4 \<le> nat q" using q by simp_all
  then show ?thesis by (rule that)
qed

lemma map2_same: "map2 f (map g xs) (map h xs) = map (\<lambda>x. f (g x) (h x)) xs"
  by (induction xs) simp_all

lemma sum_list_raw_taps:
  assumes "kernel_length b = 2 * int M + 1"
  shows "sum_list (raw_taps fc b)
     = (\<Sum>i = 0..2 * M. np_sinc (2 * fc * (real i - real M)) * blackman (2 * int M + 1) (real i))"
proof -
  have n: "nat (2 * int M + 1) = Suc (2 * M)" by simp
  have "raw_taps fc b
      = map (\<lambda>i. np_sinc (2 * fc * (real i - real M)) * blackman (2 * int M + 1) (real i))
          [0..<Suc (2 * M)]"
    unfolding raw_taps_def Let_def assms n map2_same
    by (simp add: comp_def)
  then show ?thesis
    by (simp add: interv_sum_list_conv_sum_set_nat atLeastLessThanSuc_atLeastAtMost del: upt_Suc)
qed

lemma tap_pair:
  assumes M: "0 < M" and k: "1 \<le> k" "k \<le> M" and fc: "0 < fc"
  shows "np_sinc (2 * fc * (real (M - k) - real M)) * blackman (2 * int M + 1) (real (M - k))
       + np_sinc (2 * fc * (real (M + k) - real M)) * blackman (2 * int M + 1) (real (M + k))
     = 1 / (pi * fc) * (centred_window M k * (sin (real k * (2 * pi * fc)) / real k))"
proof -
  have nz: "2 * fc * real k \<noteq> 0" using k fc by simp
  have a: "2 * fc * (real (M - k) - real M) = - (2 * fc * real k)"
    using k by (simp add: algebra_simps)
  have b: "2 * fc * (real (M + k) - real M) = 2 * fc * real k"
    by (simp add: algebra_simps)
  have s: "np_sinc (2 * fc * real k) = sin (real k * (2 * pi * fc)) / (pi * (2 * fc * real k))"
    using np_sinc_nonzero [OF nz] by (simp add: mult_ac)
  show ?thesis
    unfolding a b np_sinc_even [OF nz] blackman_below_centre [OF M k(2)]
      blackman_above_centre [OF M] s
    using k fc by (simp add: field_simps)
qed

lemma raw_taps_sum_pos:
  assumes fc: "0 < fc" "fc < 1 / 2" and b: "0 < b" "b < 1 / 2"
  shows "0 < sum_list (raw_taps fc b)"
proof -
  from kernel_length_centre [OF b] obtain M
    where N: "kernel_length b = 2 * int M + 1" and M: "4 \<le> M" by blast
  then have M0: "0 < M" by simp
  let ?h = "\<lambda>i. np_sinc (2 * fc * (real i - real M)) * blackman (2 * int M + 1) (real i)"
  let ?t = "2 * pi * fc"
  let ?a = "\<lambda>k. sin (real k * ?t) / real k"
  have t: "0 \<le> ?t" "?t \<le> pi" using fc by simp_all
  have r: "M - M = 0" "M + M = 2 * M" by simp_all
  have "sum_list (raw_taps fc b) = (\<Sum>i = M - M..M + M. ?h i)"
    unfolding r by (rule sum_list_raw_taps [OF N])
  also have "\<dots> = ?h M + (\<Sum>k = 1..M. ?h (M - k) + ?h (M + k))"
    by (rule sum_around_centre) (rule order_refl)
  also have "?h M = np_sinc 0"
  proof -
    have "blackman (2 * int M + 1) (real M) = 1"
      using blackman_above_centre [OF M0, of 0] by (simp only: add_0_right centred_window_centre)
    then show ?thesis by simp
  qed
  also have "(\<Sum>k = 1..M. ?h (M - k) + ?h (M + k))
      = (\<Sum>k = 1..M. 1 / (pi * fc) * (centred_window M k * ?a k))"
  proof (rule sum.cong [OF refl])
    fix k assume "k \<in> {1..M}"
    then have k: "1 \<le> k" "k \<le> M" by simp_all
    show "?h (M - k) + ?h (M + k) = 1 / (pi * fc) * (centred_window M k * ?a k)"
      using M0 k fc(1) by (rule tap_pair)
  qed
  also have "\<dots> = 1 / (pi * fc) * (\<Sum>k = 1..M. centred_window M k * ?a k)"
    by (rule sum_distrib_left [symmetric])
  finally have eq: "sum_list (raw_taps fc b)
      = np_sinc 0 + 1 / (pi * fc) * (\<Sum>k = 1..M. centred_window M k * ?a k)" .
  have "centred_window M M * (\<Sum>k = 1..M. ?a k) \<le> (\<Sum>k = 1..M. centred_window M k * ?a k)"
  proof (rule abel_summation_bound)
    fix k assume "1 \<le> k" "k < M"
    then show "centred_window M (Suc k) \<le> centred_window M k"
      by (intro centred_window_decreasing)
  next
    fix n assume "n \<le> M"
    show "0 \<le> (\<Sum>k = 1..n. ?a k)" using t by (rule fejer_jackson)
  qed
  then have "0 \<le> (\<Sum>k = 1..M. centred_window M k * ?a k)"
    unfolding centred_window_edge [OF M0] by (simp only: mult_zero_left)
  moreover have "0 \<le> 1 / (pi * fc)" using fc by simp
  ultimately have "0 \<le> 1 / (pi * fc) * (\<Sum>k = 1..M. centred_window M k * ?a k)"
    by (rule mult_nonneg_nonneg [rotated])
  then show ?thesis unfolding eq using np_sinc_zero_pos by linarith
qed


lemma sum_list_divide:
  fixes s :: real
  shows "sum_list (map (\<lambda>t. t / s) xs) = sum_list xs / s"
  by (induction xs) (simp_all add: add_divide_distrib)

text \<open>
  C2. For every cutoff fraction and transition fraction in \<open>(0, 0.5)\<close> the taps of the
  designed kernel sum to 1 (exactly, over the reals; so within \<open>1e-9\<close>). The sum of the
  taps before the division is at least the centre tap, which is positive: the other
  taps pair up around the centre into a falling window times the terms of the sine
  series, and summation by parts bounds that from below by zero.
\<close>

theorem design_lowpass_unity_gain:
  assumes "0 < fc" and "fc < 1 / 2" and "0 < b" and "b < 1 / 2"
  shows "sum_list (design_lowpass fc b) = 1
    \<and> \<bar>sum_list (design_lowpass fc b) - 1\<bar> \<le> 1 / 10 ^ 9"
proof -
  have "0 < sum_list (raw_taps fc b)" using assms by (rule raw_taps_sum_pos)
  then have "sum_list (design_lowpass fc b) = 1"
    by (simp add: design_lowpass_def Let_def sum_list_divide)
  then show ?thesis by simp
qed

theorem design_lowpass_unity_gain_witness:
  "0 < fc_notebook \<and> fc_notebook < 1 / 2 \<and> 0 < b_notebook \<and> b_notebook < 1 / 2
   \<and> length (design_lowpass fc_notebook b_notebook) = 9
   \<and> sum_list (design_lowpass fc_notebook b_notebook) = 1"
proof -
  have h: "0 < fc_notebook" "fc_notebook < 1 / 2" "0 < b_notebook" "b_notebook < 1 / 2"
    by (simp_all add: fc_notebook_def b_notebook_def)
  have l: "length (design_lowpass fc_notebook b_notebook) = 9"
    by (simp add: length_design_lowpass kernel_length_b_notebook)
  from design_lowpass_unity_gain [OF h] h l show ?thesis by simp
qed

end
